theory Spec2Isabelle
  imports Main "HOL-Library.Multiset"
begin

section \<open>The undo engine of moneyGuru: \<^verbatim>\<open>core/model/undo.py\<close>\<close>

text \<open>
  The module defines two classes. \<^verbatim>\<open>Action\<close> gathers what one user operation adds,
  changes and deletes; \<^verbatim>\<open>Undoer\<close> keeps the list of recorded actions, a cursor into
  it (a negative offset from the end of the list) and a save point.

  Python objects are modelled by their identity, a natural number, and what \<^verbatim>\<open>is\<close>
  compares is that number. The attribute values of the entities live in a store that maps an
  identity to the values; the type \<open>'v\<close> of these values is arbitrary, the undo engine never
  looks inside them.

  An action is a value that carries its identity. The document builds one
  \<^verbatim>\<open>Action\<close> for each operation and records it once: \<^verbatim>\<open>record\<close> sets the attribute
  \<^verbatim>\<open>undostep\<close> of the action it is given, which would replace the step of an action
  that is in the history already. Where a statement below depends on it, it says that the
  recorded action is an object of its own.

  A Python \<^verbatim>\<open>set\<close> is modelled by the list of its elements in the order in which the
  set iterates, because \<^verbatim>\<open>Undoer._do_adds\<close> and \<^verbatim>\<open>Undoer._do_deletes\<close> iterate
  over sets and the order shows in the list of scheduled transactions. Nothing below
  depends on where a new element lands in that order.
\<close>

subsection \<open>Python values\<close>

datatype error = AssertionError | IndexError | ValueError | AttributeError

type_synonym account = nat
type_synonym transaction = nat
type_synonym schedule = nat
type_synonym entry = nat

text \<open>\<^verbatim>\<open>s.add(x)\<close> and \<^verbatim>\<open>s |= set(xs)\<close> on a set.\<close>

definition set_add :: "'a list \<Rightarrow> 'a \<Rightarrow> 'a list" where
  "set_add s x = (if x \<in> set s then s else s @ [x])"

definition set_union :: "'a list \<Rightarrow> 'a list \<Rightarrow> 'a list" where
  "set_union s xs = foldl set_add s xs"

text \<open>\<^verbatim>\<open>xs[i]\<close>: a negative index counts from the end, an index out of range raises.\<close>

definition position :: "'a list \<Rightarrow> int \<Rightarrow> int" where
  "position xs i = (if i < 0 then int (length xs) + i else i)"

definition getitem :: "'a list \<Rightarrow> int \<Rightarrow> error + 'a" where
  "getitem xs i =
     (let j = position xs i
      in if 0 \<le> j \<and> j < int (length xs) then Inr (xs ! nat j) else Inl IndexError)"

text \<open>\<^verbatim>\<open>xs[:k]\<close>: a negative bound counts from the end and is clamped at the start.\<close>

definition slice_to :: "'a list \<Rightarrow> int \<Rightarrow> 'a list" where
  "slice_to xs k = take (nat (position xs k)) xs"

subsection \<open>The collections of the document\<close>

text \<open>
  The store of the entity objects: the attribute values of every account, transaction
  and schedule object, by identity.
\<close>

record 'v heap =
  account_attrs :: "account \<Rightarrow> 'v"
  transaction_attrs :: "transaction \<Rightarrow> 'v"
  schedule_attrs :: "schedule \<Rightarrow> 'v"

text \<open>
  Modelled from the spec: the transactions collection is not in \<^verbatim>\<open>src/\<close>. It is an
  ordered collection of the transactions of the document (spec 3) with membership add and
  remove (spec 6): the model keeps the transactions in a list, adding a transaction puts
  it at the end, removing takes it out. The collection offers \<^verbatim>\<open>clear_cache()\<close>,
  which drops the derived values it has memoised; the model counts its calls. The
  accounts are a set without an order (spec 3).
\<close>

record transaction_list =
  members :: "transaction list"
  cache_clears :: nat

definition without :: "'a list \<Rightarrow> 'a list \<Rightarrow> 'a list" where
  "without xs gone = filter (\<lambda>x. x \<notin> set gone) xs"

definition clear_cache :: "transaction_list \<Rightarrow> transaction_list" where
  "clear_cache t = t\<lparr>cache_clears := Suc (cache_clears t)\<rparr>"

subsection \<open>UndoStep\<close>

text \<open>
  Modelled from the spec: \<^verbatim>\<open>UndoStep\<close> is imported from \<^verbatim>\<open>core.model._ccore\<close>, which
  is not in \<^verbatim>\<open>src/\<close>. The spec (3 and 4.2) says: it is built once, at record time, from
  the sets of the action; the backup of a changed entity is a copy taken then; going
  backward restores each changed entity to its backup, removes each added entity from the
  live collections and re-inserts each deleted one; going forward restores the values the
  entities had before the undo, the live object and its backup together holding both
  directions; the list of scheduled transactions is not its business.

  So a step holds the added and the deleted accounts and transactions and, for every
  changed account, transaction and schedule, a copy of its values; undo and redo exchange
  the values of each changed entity with its copy. Undo takes the added entities out of
  the collections and then puts the deleted ones back; redo is the same with added and
  deleted exchanged.
\<close>

record 'v undostep =
  step_added_accounts :: "account list"
  step_deleted_accounts :: "account list"
  step_changed_accounts :: "account \<rightharpoonup> 'v"
  step_added_transactions :: "transaction list"
  step_deleted_transactions :: "transaction list"
  step_changed_transactions :: "transaction \<rightharpoonup> 'v"
  step_changed_schedules :: "schedule \<rightharpoonup> 'v"

definition copies :: "('a \<Rightarrow> 'v) \<Rightarrow> 'a list \<Rightarrow> ('a \<rightharpoonup> 'v)" where
  "copies attrs xs = (\<lambda>e. if e \<in> set xs then Some (attrs e) else None)"

definition UndoStep ::
  "'v heap \<Rightarrow> account list \<Rightarrow> account list \<Rightarrow> account list \<Rightarrow>
   transaction list \<Rightarrow> transaction list \<Rightarrow> transaction list \<Rightarrow> schedule list \<Rightarrow> 'v undostep"
where
  "UndoStep h added_acc deleted_acc changed_acc added_txn deleted_txn changed_txn changed_sch =
     \<lparr>step_added_accounts = added_acc,
      step_deleted_accounts = deleted_acc,
      step_changed_accounts = copies (account_attrs h) changed_acc,
      step_added_transactions = added_txn,
      step_deleted_transactions = deleted_txn,
      step_changed_transactions = copies (transaction_attrs h) changed_txn,
      step_changed_schedules = copies (schedule_attrs h) changed_sch\<rparr>"

text \<open>Exchanging the live values with the copies: the new live values, the new copies.\<close>

definition swap_live :: "('a \<rightharpoonup> 'v) \<Rightarrow> ('a \<Rightarrow> 'v) \<Rightarrow> ('a \<Rightarrow> 'v)" where
  "swap_live backup attrs = (\<lambda>e. case backup e of None \<Rightarrow> attrs e | Some b \<Rightarrow> b)"

definition swap_copies :: "('a \<rightharpoonup> 'v) \<Rightarrow> ('a \<Rightarrow> 'v) \<Rightarrow> ('a \<rightharpoonup> 'v)" where
  "swap_copies backup attrs = (\<lambda>e. case backup e of None \<Rightarrow> None | Some b \<Rightarrow> Some (attrs e))"

definition swap_step :: "'v undostep \<Rightarrow> 'v heap \<Rightarrow> 'v undostep \<times> 'v heap" where
  "swap_step st h =
     (st\<lparr>step_changed_accounts := swap_copies (step_changed_accounts st) (account_attrs h),
         step_changed_transactions :=
           swap_copies (step_changed_transactions st) (transaction_attrs h),
         step_changed_schedules := swap_copies (step_changed_schedules st) (schedule_attrs h)\<rparr>,
      \<lparr>account_attrs = swap_live (step_changed_accounts st) (account_attrs h),
       transaction_attrs = swap_live (step_changed_transactions st) (transaction_attrs h),
       schedule_attrs = swap_live (step_changed_schedules st) (schedule_attrs h)\<rparr>)"

definition undostep_undo ::
  "'v undostep \<Rightarrow> account set \<Rightarrow> transaction_list \<Rightarrow> 'v heap \<Rightarrow>
   'v undostep \<times> account set \<times> transaction_list \<times> 'v heap"
where
  "undostep_undo st accs txns h =
     (let (st', h') = swap_step st h
      in (st',
          (accs - set (step_added_accounts st)) \<union> set (step_deleted_accounts st),
          txns\<lparr>members :=
            without (members txns) (step_added_transactions st)
              @ step_deleted_transactions st\<rparr>,
          h'))"

definition undostep_redo ::
  "'v undostep \<Rightarrow> account set \<Rightarrow> transaction_list \<Rightarrow> 'v heap \<Rightarrow>
   'v undostep \<times> account set \<times> transaction_list \<times> 'v heap"
where
  "undostep_redo st accs txns h =
     (let (st', h') = swap_step st h
      in (st',
          (accs - set (step_deleted_accounts st)) \<union> set (step_added_accounts st),
          txns\<lparr>members :=
            without (members txns) (step_deleted_transactions st)
              @ step_added_transactions st\<rparr>,
          h'))"

subsection \<open>Action\<close>

text \<open>
  \<open>ident\<close> is the identity of the Python object. \<open>undostep\<close> is the attribute that
  \<^verbatim>\<open>Undoer.record\<close> sets; it is \<open>None\<close> as long as the action has not been recorded.
\<close>

record 'v action =
  ident :: nat
  description :: string
  added_accounts :: "account list"
  changed_accounts :: "account list"
  deleted_accounts :: "account list"
  added_transactions :: "transaction list"
  changed_transactions :: "transaction list"
  deleted_transactions :: "transaction list"
  added_schedules :: "schedule list"
  changed_schedules :: "schedule list"
  deleted_schedules :: "schedule list"
  undostep :: "'v undostep option"

definition Action :: "nat \<Rightarrow> string \<Rightarrow> 'v action" where
  "Action i d =
     \<lparr>ident = i, description = d,
      added_accounts = [], changed_accounts = [], deleted_accounts = [],
      added_transactions = [], changed_transactions = [], deleted_transactions = [],
      added_schedules = [], changed_schedules = [], deleted_schedules = [],
      undostep = None\<rparr>"

definition change_accounts :: "'v action \<Rightarrow> account list \<Rightarrow> 'v action" where
  "change_accounts a accs = a\<lparr>changed_accounts := set_union (changed_accounts a) accs\<rparr>"

definition change_schedule :: "'v action \<Rightarrow> schedule \<Rightarrow> 'v action" where
  "change_schedule a s = a\<lparr>changed_schedules := set_add (changed_schedules a) s\<rparr>"

text \<open>
  Modelled from the spec: \<^verbatim>\<open>core.util.extract\<close> is not in \<^verbatim>\<open>src/\<close>. It partitions
  what it is given into the items that satisfy the predicate and the others.
\<close>

definition "extract" :: "('a \<Rightarrow> bool) \<Rightarrow> 'a list \<Rightarrow> 'a list \<times> 'a list" where
  "extract p xs = (filter p xs, filter (\<lambda>x. \<not> p x) xs)"

text \<open>
  The classes of the transactions, the schedules and the entries are not in \<^verbatim>\<open>src/\<close>:
  the attribute \<^verbatim>\<open>t.is_spawn\<close>, the method \<^verbatim>\<open>schedule.contains_spawn(spawn)\<close> and
  the attribute \<^verbatim>\<open>e.transaction\<close> are parameters.
\<close>

definition add_changed_transaction :: "'v action \<Rightarrow> transaction \<Rightarrow> 'v action" where
  "add_changed_transaction a t = a\<lparr>changed_transactions := set_add (changed_transactions a) t\<rparr>"

definition change_spawn ::
  "(schedule \<Rightarrow> transaction \<Rightarrow> bool) \<Rightarrow> schedule list \<Rightarrow> 'v action \<Rightarrow> transaction \<Rightarrow> 'v action"
where
  "change_spawn contains_spawn schedules a spawn =
     foldl (\<lambda>b schedule. if contains_spawn schedule spawn then change_schedule b schedule else b)
       a schedules"

definition change_transactions ::
  "(transaction \<Rightarrow> bool) \<Rightarrow> (schedule \<Rightarrow> transaction \<Rightarrow> bool) \<Rightarrow>
   'v action \<Rightarrow> transaction list \<Rightarrow> schedule list \<Rightarrow> 'v action"
where
  "change_transactions is_spawn contains_spawn a txns schedules =
     (let (spawns, normal) = extract is_spawn txns
      in foldl (change_spawn contains_spawn schedules)
           (foldl add_changed_transaction a normal) spawns)"

definition change_entries ::
  "(transaction \<Rightarrow> bool) \<Rightarrow> (schedule \<Rightarrow> transaction \<Rightarrow> bool) \<Rightarrow> (entry \<Rightarrow> transaction) \<Rightarrow>
   'v action \<Rightarrow> entry list \<Rightarrow> schedule list \<Rightarrow> 'v action"
where
  "change_entries is_spawn contains_spawn entry_transaction a entries schedules =
     change_transactions is_spawn contains_spawn a
       (set_union [] (map entry_transaction entries)) schedules"

subsection \<open>Undoer\<close>

text \<open>
  The fields of the class, without their leading underscore. \<open>accounts\<close>,
  \<open>transactions\<close> and \<open>scheduled\<close> are references to the collections of the document:
  here they hold what the collections contain at the moment, and \<open>heap\<close> holds the
  objects they refer to. \<open>save_point\<close> is the identity of an action, or \<open>None\<close>.
\<close>

record 'v undoer =
  actions :: "'v action list"
  accounts :: "account set"
  transactions :: transaction_list
  scheduled :: "schedule list"
  index :: int
  save_point :: "nat option"
  heap :: "'v heap"

definition Undoer ::
  "account set \<Rightarrow> transaction_list \<Rightarrow> schedule list \<Rightarrow> 'v heap \<Rightarrow> 'v undoer"
where
  "Undoer accs txns sched h =
     \<lparr>actions = [], accounts = accs, transactions = txns, scheduled = sched,
      index = - 1, save_point = None, heap = h\<rparr>"

fun do_adds :: "schedule list \<Rightarrow> schedule list \<Rightarrow> schedule list" where
  "do_adds sched [] = sched"
| "do_adds sched (s # ss) = do_adds (sched @ [s]) ss"

text \<open>\<^verbatim>\<open>list.remove\<close> takes out the first occurrence and raises when there is none.\<close>

fun do_deletes :: "schedule list \<Rightarrow> schedule list \<Rightarrow> error + schedule list" where
  "do_deletes sched [] = Inr sched"
| "do_deletes sched (s # ss) =
     (if s \<in> set sched then do_deletes (remove1 s sched) ss else Inl ValueError)"

definition can_redo :: "'v undoer \<Rightarrow> bool" where
  "can_redo u = (index u < - 1)"

definition can_undo :: "'v undoer \<Rightarrow> bool" where
  "can_undo u = (- index u \<le> int (length (actions u)))"

definition clear :: "'v undoer \<Rightarrow> 'v undoer" where
  "clear u = u\<lparr>actions := []\<rparr>"

definition undo_description :: "'v undoer \<Rightarrow> error + string option" where
  "undo_description u =
     (if can_undo u
      then (case getitem (actions u) (index u) of
              Inl e \<Rightarrow> Inl e
            | Inr a \<Rightarrow> Inr (Some (description a)))
      else Inr None)"

definition redo_description :: "'v undoer \<Rightarrow> error + string option" where
  "redo_description u =
     (if can_redo u
      then (case getitem (actions u) (index u + 1) of
              Inl e \<Rightarrow> Inl e
            | Inr a \<Rightarrow> Inr (Some (description a)))
      else Inr None)"

definition set_save_point :: "'v undoer \<Rightarrow> 'v undoer" where
  "set_save_point u =
     u\<lparr>save_point := (if actions u \<noteq> [] then Some (ident (last (actions u))) else None)\<rparr>"

definition "record" :: "'v undoer \<Rightarrow> 'v action \<Rightarrow> 'v undoer" where
  "record u a =
     (let a' = a\<lparr>undostep := Some (UndoStep (heap u)
                   (added_accounts a) (deleted_accounts a) (changed_accounts a)
                   (added_transactions a) (deleted_transactions a) (changed_transactions a)
                   (changed_schedules a))\<rparr>;
          kept = (if index u < - 1 then slice_to (actions u) (index u + 1) else actions u)
      in u\<lparr>actions := kept @ [a'], index := - 1\<rparr>)"

text \<open>
  \<open>undo\<close> and \<open>redo\<close> return the state the call leaves, or the exception it raises.
  The step of the action is an object of its own, changed in place by the call: the model
  writes the changed step back into the action at its place in the list.
\<close>

definition undo :: "'v undoer \<Rightarrow> error + 'v undoer" where
  "undo u =
     (if \<not> can_undo u then Inl AssertionError
      else case getitem (actions u) (index u) of
        Inl e \<Rightarrow> Inl e
      | Inr a \<Rightarrow>
          (case undostep a of
             None \<Rightarrow> Inl AttributeError
           | Some st \<Rightarrow>
               (let (st', accs, txns, h) = undostep_undo st (accounts u) (transactions u) (heap u)
                in case do_deletes (do_adds (scheduled u) (deleted_schedules a))
                          (added_schedules a) of
                     Inl e \<Rightarrow> Inl e
                   | Inr sched \<Rightarrow>
                       Inr (u\<lparr>actions := (actions u)
                                [nat (position (actions u) (index u)) := a\<lparr>undostep := Some st'\<rparr>],
                              accounts := accs,
                              transactions := clear_cache txns,
                              scheduled := sched,
                              index := index u - 1,
                              heap := h\<rparr>))))"

definition redo :: "'v undoer \<Rightarrow> error + 'v undoer" where
  "redo u =
     (if \<not> can_redo u then Inl AssertionError
      else case getitem (actions u) (index u + 1) of
        Inl e \<Rightarrow> Inl e
      | Inr a \<Rightarrow>
          (case undostep a of
             None \<Rightarrow> Inl AttributeError
           | Some st \<Rightarrow>
               (let (st', accs, txns, h) = undostep_redo st (accounts u) (transactions u) (heap u)
                in case do_deletes (do_adds (scheduled u) (added_schedules a))
                          (deleted_schedules a) of
                     Inl e \<Rightarrow> Inl e
                   | Inr sched \<Rightarrow>
                       Inr (u\<lparr>actions := (actions u)
                                [nat (position (actions u) (index u + 1)) :=
                                   a\<lparr>undostep := Some st'\<rparr>],
                              accounts := accs,
                              transactions := clear_cache txns,
                              scheduled := sched,
                              index := index u + 1,
                              heap := h\<rparr>))))"

definition modified :: "'v undoer \<Rightarrow> error + bool" where
  "modified u =
     (if can_undo u
      then (case getitem (actions u) (index u) of
              Inl e \<Rightarrow> Inl e
            | Inr a \<Rightarrow> Inr (save_point u \<noteq> Some (ident a)))
      else Inr (save_point u \<noteq> None))"

subsection \<open>The document at work\<close>

text \<open>
  Between two calls of the Undoer the document changes its collections and its entities:
  \<open>edit\<close> replaces what the three references and the store hold.
\<close>

definition edit ::
  "'v undoer \<Rightarrow> account set \<Rightarrow> transaction_list \<Rightarrow> schedule list \<Rightarrow> 'v heap \<Rightarrow> 'v undoer"
where
  "edit u accs txns sched h =
     u\<lparr>accounts := accs, transactions := txns, scheduled := sched, heap := h\<rparr>"

text \<open>
  The collections show the effect of an action: what it added is there, the added
  transactions at the end of the transactions and the added schedules at the end of the
  list of scheduled transactions, each in the order in which the action iterates over
  them, and what it deleted is gone.
\<close>

definition at_end :: "'a list \<Rightarrow> 'a list \<Rightarrow> bool" where
  "at_end added xs =
     (drop (length xs - length added) xs = added
      \<and> set added \<inter> set (take (length xs - length added) xs) = {})"

definition applied :: "'v action \<Rightarrow> 'v undoer \<Rightarrow> bool" where
  "applied a u =
     (set (added_accounts a) \<subseteq> accounts u
      \<and> set (deleted_accounts a) \<inter> accounts u = {}
      \<and> at_end (added_transactions a) (members (transactions u))
      \<and> set (deleted_transactions a) \<inter> set (members (transactions u)) = {}
      \<and> at_end (added_schedules a) (scheduled u)
      \<and> set (deleted_schedules a) \<inter> set (scheduled u) = {})"

text \<open>
  A sequence of calls: \<^verbatim>\<open>record\<close>, \<^verbatim>\<open>undo\<close> and \<^verbatim>\<open>redo\<close>, with the changes of
  the document in between. It stops at the first exception.
\<close>

datatype 'v op =
    Record "'v action"
  | Undo
  | Redo
  | Edit "account set" transaction_list "schedule list" "'v heap"

fun step :: "'v undoer \<Rightarrow> 'v op \<Rightarrow> error + 'v undoer" where
  "step u (Record a) = Inr (record u a)"
| "step u Undo = undo u"
| "step u Redo = redo u"
| "step u (Edit accs txns sched h) = Inr (edit u accs txns sched h)"

fun run :: "'v undoer \<Rightarrow> 'v op list \<Rightarrow> error + 'v undoer" where
  "run u [] = Inr u"
| "run u (x # xs) = (case step u x of Inl e \<Rightarrow> Inl e | Inr v \<Rightarrow> run v xs)"

fun recorded :: "'v op list \<Rightarrow> 'v action list" where
  "recorded [] = []"
| "recorded (Record a # xs) = a # recorded xs"
| "recorded (x # xs) = recorded xs"

text \<open>An empty document, for the examples.\<close>

definition blank :: "nat heap" where
  "blank = \<lparr>account_attrs = (\<lambda>_. 0), transaction_attrs = (\<lambda>_. 0), schedule_attrs = (\<lambda>_. 0)\<rparr>"

definition no_transactions :: transaction_list where
  "no_transactions = \<lparr>members = [], cache_clears = 0\<rparr>"

definition new_undoer :: "nat undoer" where
  "new_undoer = Undoer {} no_transactions [] blank"

section \<open>Evaluation\<close>

text \<open>The definitions that compute, for the examples.\<close>

lemmas evaluate =
  record_def Undoer_def Action_def undo_def redo_def can_undo_def can_redo_def
  getitem_def position_def slice_to_def UndoStep_def undostep_undo_def undostep_redo_def
  swap_step_def clear_cache_def clear_def set_save_point_def modified_def edit_def
  undo_description_def redo_description_def applied_def at_end_def without_def
  new_undoer_def no_transactions_def blank_def Let_def

section \<open>Python sets and lists\<close>

lemma set_set_add: "set (set_add s x) = insert x (set s)"
  by (auto simp: set_add_def)

lemma set_set_union: "set (set_union s xs) = set s \<union> set xs"
  unfolding set_union_def by (induction xs arbitrary: s) (auto simp: set_set_add)

lemma distinct_set_add: "distinct s \<Longrightarrow> distinct (set_add s x)"
  by (simp add: set_add_def)

lemma distinct_set_union: "distinct s \<Longrightarrow> distinct (set_union s xs)"
  unfolding set_union_def by (induction xs arbitrary: s) (auto simp: distinct_set_add)

lemma set_add_member: "x \<in> set s \<Longrightarrow> set_add s x = s"
  by (simp add: set_add_def)

lemma set_union_subset: "set xs \<subseteq> set s \<Longrightarrow> set_union s xs = s"
  unfolding set_union_def by (induction xs arbitrary: s) (auto simp: set_add_member)


lemma getitem_last: "xs \<noteq> [] \<Longrightarrow> getitem xs (- 1) = Inr (last xs)"
  by (auto simp: getitem_def position_def Let_def last_conv_nth nat_diff_distrib' 
      intro!: arg_cong[where f="nth xs"])


section \<open>Action\<close>

lemma foldl_add_changed_transaction:
  "foldl add_changed_transaction a ts
     = a\<lparr>changed_transactions := set_union (changed_transactions a) ts\<rparr>"
  by (induction ts arbitrary: a) (simp_all add: add_changed_transaction_def set_union_def)

lemma change_spawn_transactions:
  "changed_transactions (change_spawn cs scheds a t) = changed_transactions a"
  unfolding change_spawn_def
  by (induction scheds arbitrary: a) (simp_all add: change_schedule_def)

lemma change_spawn_schedules:
  "set (changed_schedules (change_spawn cs scheds a t))
     = set (changed_schedules a) \<union> {s \<in> set scheds. cs s t}"
  unfolding change_spawn_def
  by (induction scheds arbitrary: a) (auto simp: change_schedule_def set_set_add)

lemma foldl_change_spawn_transactions:
  "changed_transactions (foldl (change_spawn cs scheds) a ts) = changed_transactions a"
  by (induction ts arbitrary: a) (simp_all add: change_spawn_transactions)

lemma foldl_change_spawn_schedules:
  "set (changed_schedules (foldl (change_spawn cs scheds) a ts))
     = set (changed_schedules a) \<union> {s \<in> set scheds. \<exists>t \<in> set ts. cs s t}"
  by (induction ts arbitrary: a) (auto simp: change_spawn_schedules)

lemma change_transactions_transactions:
  "set (changed_transactions (change_transactions is_spawn cs a ts scheds))
     = set (changed_transactions a) \<union> {t \<in> set ts. \<not> is_spawn t}"
  by (auto simp: change_transactions_def extract_def foldl_change_spawn_transactions
      foldl_add_changed_transaction set_set_union)

lemma change_transactions_schedules:
  "set (changed_schedules (change_transactions is_spawn cs a ts scheds))
     = set (changed_schedules a) \<union> {s \<in> set scheds. \<exists>t \<in> set ts. is_spawn t \<and> cs s t}"
  by (auto simp: change_transactions_def extract_def foldl_change_spawn_schedules
      foldl_add_changed_transaction)

text \<open>
  Claim C4. After \<^verbatim>\<open>change_transactions(transactions, schedules)\<close> the changed
  transactions are those there were before and the transactions given that are no spawns:
  each such transaction is in, and the call puts no spawn in. The changed schedules are
  those there were before and every schedule given that contains one of the spawns given.
  So with one spawn \<open>t\<close> and a schedule \<open>s\<close> that contains it,
  \<^verbatim>\<open>change_transactions({t}, {s})\<close> leaves \<open>s\<close> among the changed schedules.
  \<^verbatim>\<open>change_entries(entries, schedules)\<close> is \<^verbatim>\<open>change_transactions\<close> on the set of
  the transactions of the entries.
\<close>

theorem change_transactions_registers:
  "set (changed_transactions (change_transactions is_spawn cs a ts scheds))
     = set (changed_transactions a) \<union> {t \<in> set ts. \<not> is_spawn t}
   \<and> set (changed_schedules (change_transactions is_spawn cs a ts scheds))
     = set (changed_schedules a) \<union> {s \<in> set scheds. \<exists>t \<in> set ts. is_spawn t \<and> cs s t}
   \<and> (is_spawn t \<and> cs s t \<longrightarrow>
        s \<in> set (changed_schedules (change_transactions is_spawn cs a [t] [s]))
        \<and> (t \<in> set (changed_transactions (change_transactions is_spawn cs a [t] [s]))
             \<longleftrightarrow> t \<in> set (changed_transactions a)))
   \<and> change_entries is_spawn cs entry_transaction a es scheds
     = change_transactions is_spawn cs a (set_union [] (map entry_transaction es)) scheds
   \<and> set (set_union [] (map entry_transaction es)) = entry_transaction ` set es
   \<and> distinct (set_union [] (map entry_transaction es))
   \<and> set (changed_transactions (change_entries is_spawn cs entry_transaction a es scheds))
     = set (changed_transactions a) \<union> {t \<in> entry_transaction ` set es. \<not> is_spawn t}
   \<and> set (changed_schedules (change_entries is_spawn cs entry_transaction a es scheds))
     = set (changed_schedules a)
        \<union> {s \<in> set scheds. \<exists>t \<in> entry_transaction ` set es. is_spawn t \<and> cs s t}"
  by (simp add: change_transactions_transactions change_transactions_schedules
      change_entries_def set_set_union distinct_set_union)

theorem change_transactions_registers_witness:
  "(odd (3::nat) \<and> (\<lambda>s t. s = 10 \<and> t = 3) (10::nat) (3::nat))
   \<and> 10 \<in> set (changed_schedules
        (change_transactions odd (\<lambda>s t. s = 10 \<and> t = 3) (Action 1 ''Change transaction'' :: nat action) [3] [10]))
   \<and> 3 \<notin> set (changed_transactions
        (change_transactions odd (\<lambda>s t. s = 10 \<and> t = 3) (Action 1 ''Change transaction'' :: nat action) [3] [10]))"
  using change_transactions_registers[of odd "\<lambda>s t. s = 10 \<and> t = 3"
      "Action 1 ''Change transaction'' :: nat action" "[3]" "[10]" 3 10 id "[]"]
  by (simp add: Action_def)

text \<open>
  X3, what the two methods do to the sets. After \<^verbatim>\<open>change_accounts(accounts)\<close> the
  members of \<open>changed_accounts\<close> are the members before and the accounts given, a second
  call with the same accounts changes nothing, and a call with accounts that are all
  registered leaves the action as it is. \<^verbatim>\<open>change_schedule(schedule)\<close> adds the
  schedule to \<open>changed_schedules\<close> by the same rule.
\<close>

theorem change_accounts_union:
  "set (changed_accounts (change_accounts a accs)) = set (changed_accounts a) \<union> set accs
   \<and> change_accounts (change_accounts a accs) accs = change_accounts a accs
   \<and> (set accs \<subseteq> set (changed_accounts a) \<longrightarrow> change_accounts a accs = a)
   \<and> set (changed_schedules (change_schedule a s)) = insert s (set (changed_schedules a))
   \<and> change_schedule (change_schedule a s) s = change_schedule a s
   \<and> (s \<in> set (changed_schedules a) \<longrightarrow> change_schedule a s = a)"
  by (simp add: change_accounts_def change_schedule_def set_set_union set_set_add
      set_union_subset set_add_member)

theorem change_accounts_union_witness:
  "set [7] \<subseteq> set (changed_accounts (change_accounts (Action 1 ''Change account'' :: nat action) [7]))
   \<and> change_accounts (change_accounts (Action 1 ''Change account'' :: nat action) [7]) [7]
       = change_accounts (Action 1 ''Change account'') [7]
   \<and> 10 \<in> set (changed_schedules (change_schedule (Action 1 ''Change account'' :: nat action) 10))
   \<and> change_schedule (change_schedule (Action 1 ''Change account'' :: nat action) 10) 10
       = change_schedule (Action 1 ''Change account'') 10"
proof -
  let ?a = "change_accounts (Action 1 ''Change account'' :: nat action) [7]"
  let ?b = "change_schedule (Action 1 ''Change account'' :: nat action) 10"
  have h1: "set [7] \<subseteq> set (changed_accounts ?a)"
    by (simp add: change_accounts_def set_union_def set_add_def Action_def)
  have h2: "10 \<in> set (changed_schedules ?b)"
    by (simp add: change_schedule_def set_add_def Action_def)
  from change_accounts_union[of ?a "[7]" 10] h1 have c1: "change_accounts ?a [7] = ?a"
    by blast
  from change_accounts_union[of ?b "[7]" 10] h2 have c2: "change_schedule ?b 10 = ?b"
    by blast
  from h1 h2 c1 c2 show ?thesis by blast
qed

text \<open>
  Claim C7 on the code. The claim says that \<^verbatim>\<open>change_accounts\<close> copies each account
  and adds the pair of the account and its backup, and \<^verbatim>\<open>change_schedule\<close> likewise.
  After \<^verbatim>\<open>change_accounts([account 7])\<close> on a new action \<open>changed_accounts\<close> holds
  account 7 itself and nothing else, and after \<^verbatim>\<open>change_schedule(schedule 10)\<close>
  \<open>changed_schedules\<close> holds schedule 10 itself: no copy, no pair.
\<close>

theorem change_accounts_stores_reference:
  "changed_accounts (change_accounts (Action 1 ''Change account'' :: nat action) [7]) = [7]
   \<and> changed_schedules (change_schedule (Action 1 ''Change account'' :: nat action) 10) = [10]"
  by (simp add: change_accounts_def change_schedule_def Action_def set_union_def set_add_def)

section \<open>Recording\<close>

lemma index_record: "index (record u a) = - 1"
  by (simp add: record_def Let_def)

lemma can_redo_record: "\<not> can_redo (record u a)"
  by (simp add: can_redo_def index_record)

lemma actions_record_nonempty: "actions (record u a) \<noteq> []"
  by (simp add: record_def Let_def)

lemma last_actions_record:
  "description (last (actions (record u a))) = description a"
  "ident (last (actions (record u a))) = ident a"
  by (simp_all add: record_def Let_def)

lemma can_undo_record: "can_undo (record u a)"
  using actions_record_nonempty[of u a]
  by (cases "actions (record u a)") (simp_all add: can_undo_def index_record)

lemma undo_description_record:
  "undo_description (record u a) = Inr (Some (description a))"
  by (simp add: undo_description_def can_undo_record index_record
      getitem_last actions_record_nonempty last_actions_record)

lemma foldl_record_snoc: "foldl record u (as @ [a]) = record (foldl record u as) a"
  by simp

text \<open>
  Claim C5. Take any document and any list of actions, and record them one after the
  other on a new Undoer, with no undo in between. \<^verbatim>\<open>can_redo()\<close> is false at the
  start and after every record, and after the record of the action at position \<open>k\<close>
  \<^verbatim>\<open>undo_description()\<close> returns the description of that action.
\<close>

theorem record_sequence:
  assumes "k < length as"
  shows "\<not> can_redo (Undoer accs txns sched h :: 'v undoer)
       \<and> \<not> can_redo (foldl record (Undoer accs txns sched h) (take (Suc k) as))
       \<and> undo_description (foldl record (Undoer accs txns sched h) (take (Suc k) as))
           = Inr (Some (description (as ! k)))"
proof -
  have t: "take (Suc k) as = take k as @ [as ! k]"
    using assms by (simp add: take_Suc_conv_app_nth)
  show ?thesis
    unfolding t foldl_record_snoc
    by (simp add: can_redo_record undo_description_record) (simp add: can_redo_def Undoer_def)
qed

theorem record_sequence_witness:
  "(1::nat) < length [Action 1 ''Add account'', Action 2 ''Add transaction'' :: nat action]
   \<and> \<not> can_redo new_undoer
   \<and> \<not> can_redo (foldl record new_undoer
          (take (Suc 1) [Action 1 ''Add account'', Action 2 ''Add transaction'']))
   \<and> undo_description (foldl record new_undoer
          (take (Suc 1) [Action 1 ''Add account'', Action 2 ''Add transaction'']))
       = Inr (Some ''Add transaction'')"
  using record_sequence[of 1 "[Action 1 ''Add account'', Action 2 ''Add transaction'' :: nat action]"
      "{}" no_transactions "[]" blank]
  by (simp add: new_undoer_def Action_def)

section \<open>The scheduled transactions under undo and redo\<close>

lemma do_adds_append: "do_adds sched ss = sched @ ss"
  by (induction ss arbitrary: sched) simp_all

lemma do_deletes_mset:
  "do_deletes sched ss = Inr sched' \<Longrightarrow> mset sched' + mset ss = mset sched"
proof (induction ss arbitrary: sched)
  case Nil
  then show ?case by simp
next
  case (Cons s ss)
  from Cons.prems have m: "s \<in> set sched" and r: "do_deletes (remove1 s sched) ss = Inr sched'"
    by (auto split: if_splits)
  from Cons.IH[OF r] m show ?case by simp
qed






lemma undoE:
  assumes "undo u = Inr v"
  obtains a st st' accs txns h where
    "can_undo u" "getitem (actions u) (index u) = Inr a" "undostep a = Some st"
    "undostep_undo st (accounts u) (transactions u) (heap u) = (st', accs, txns, h)"
    "do_deletes (do_adds (scheduled u) (deleted_schedules a)) (added_schedules a)
       = Inr (scheduled v)"
    "v = u\<lparr>actions := (actions u)[nat (position (actions u) (index u)) := a\<lparr>undostep := Some st'\<rparr>],
           accounts := accs, transactions := clear_cache txns, scheduled := scheduled v,
           index := index u - 1, heap := h\<rparr>"
  using assms unfolding undo_def
  by (auto simp: Let_def split: if_splits sum.splits option.splits prod.splits)

lemma redoE:
  assumes "redo u = Inr v"
  obtains a st st' accs txns h where
    "can_redo u" "getitem (actions u) (index u + 1) = Inr a" "undostep a = Some st"
    "undostep_redo st (accounts u) (transactions u) (heap u) = (st', accs, txns, h)"
    "do_deletes (do_adds (scheduled u) (added_schedules a)) (deleted_schedules a)
       = Inr (scheduled v)"
    "v = u\<lparr>actions := (actions u)[nat (position (actions u) (index u + 1)) := a\<lparr>undostep := Some st'\<rparr>],
           accounts := accs, transactions := clear_cache txns, scheduled := scheduled v,
           index := index u + 1, heap := h\<rparr>"
  using assms unfolding redo_def
  by (auto simp: Let_def split: if_splits sum.splits option.splits prod.splits)

lemma cache_clears_undostep_undo:
  "undostep_undo st accs txns h = (st', accs', txns', h') \<Longrightarrow> cache_clears txns' = cache_clears txns"
  by (auto simp: undostep_undo_def Let_def split: prod.splits)

lemma cache_clears_undostep_redo:
  "undostep_redo st accs txns h = (st', accs', txns', h') \<Longrightarrow> cache_clears txns' = cache_clears txns"
  by (auto simp: undostep_redo_def Let_def split: prod.splits)

text \<open>
  Claim C6. When \<^verbatim>\<open>undo()\<close> returns, it has appended every schedule of
  \<open>deleted_schedules\<close> of the action at the cursor to the list of scheduled
  transactions and then removed every schedule of its \<open>added_schedules\<close>: each schedule
  occurs in the list as often as before, once more for each time the action deleted it
  and once less for each time it added it. \<^verbatim>\<open>redo()\<close> does the mirror with the
  action after the cursor. After either, the transactions collection is what
  \<^verbatim>\<open>clear_cache()\<close> returned: the hook has been called once more.
\<close>

theorem undo_redo_schedules:
  "(undo u = Inr v \<longrightarrow>
      (\<exists>a. getitem (actions u) (index u) = Inr a
         \<and> do_deletes (do_adds (scheduled u) (deleted_schedules a)) (added_schedules a)
             = Inr (scheduled v)
         \<and> mset (scheduled v) + mset (added_schedules a)
             = mset (scheduled u) + mset (deleted_schedules a))
      \<and> (\<exists>t. transactions v = clear_cache t)
      \<and> cache_clears (transactions v) = Suc (cache_clears (transactions u)))
   \<and> (redo u = Inr w \<longrightarrow>
      (\<exists>a. getitem (actions u) (index u + 1) = Inr a
         \<and> do_deletes (do_adds (scheduled u) (added_schedules a)) (deleted_schedules a)
             = Inr (scheduled w)
         \<and> mset (scheduled w) + mset (deleted_schedules a)
             = mset (scheduled u) + mset (added_schedules a))
      \<and> (\<exists>t. transactions w = clear_cache t)
      \<and> cache_clears (transactions w) = Suc (cache_clears (transactions u)))"
proof (intro conjI impI)
  assume "undo u = Inr v"
  then obtain a st st' accs txns h where
    g: "getitem (actions u) (index u) = Inr a"
    and s: "undostep_undo st (accounts u) (transactions u) (heap u) = (st', accs, txns, h)"
    and d: "do_deletes (do_adds (scheduled u) (deleted_schedules a)) (added_schedules a)
       = Inr (scheduled v)"
    and v: "v = u\<lparr>actions := (actions u)[nat (position (actions u) (index u)) := a\<lparr>undostep := Some st'\<rparr>],
           accounts := accs, transactions := clear_cache txns, scheduled := scheduled v,
           index := index u - 1, heap := h\<rparr>"
    by (rule undoE)
  have t: "transactions v = clear_cache txns" by (subst v) simp
  from do_deletes_mset[OF d]
  have m: "mset (scheduled v) + mset (added_schedules a)
             = mset (scheduled u) + mset (deleted_schedules a)"
    by (simp add: do_adds_append)
  from g d m show "\<exists>a. getitem (actions u) (index u) = Inr a
         \<and> do_deletes (do_adds (scheduled u) (deleted_schedules a)) (added_schedules a)
             = Inr (scheduled v)
         \<and> mset (scheduled v) + mset (added_schedules a)
             = mset (scheduled u) + mset (deleted_schedules a)" by blast
  from t show "\<exists>t. transactions v = clear_cache t" by blast
  from t cache_clears_undostep_undo[OF s]
  show "cache_clears (transactions v) = Suc (cache_clears (transactions u))"
    by (simp add: clear_cache_def)
next
  assume "redo u = Inr w"
  then obtain a st st' accs txns h where
    g: "getitem (actions u) (index u + 1) = Inr a"
    and s: "undostep_redo st (accounts u) (transactions u) (heap u) = (st', accs, txns, h)"
    and d: "do_deletes (do_adds (scheduled u) (added_schedules a)) (deleted_schedules a)
       = Inr (scheduled w)"
    and v: "w = u\<lparr>actions := (actions u)[nat (position (actions u) (index u + 1)) := a\<lparr>undostep := Some st'\<rparr>],
           accounts := accs, transactions := clear_cache txns, scheduled := scheduled w,
           index := index u + 1, heap := h\<rparr>"
    by (rule redoE)
  have t: "transactions w = clear_cache txns" by (subst v) simp
  from do_deletes_mset[OF d]
  have m: "mset (scheduled w) + mset (deleted_schedules a)
             = mset (scheduled u) + mset (added_schedules a)"
    by (simp add: do_adds_append)
  from g d m show "\<exists>a. getitem (actions u) (index u + 1) = Inr a
         \<and> do_deletes (do_adds (scheduled u) (added_schedules a)) (deleted_schedules a)
             = Inr (scheduled w)
         \<and> mset (scheduled w) + mset (deleted_schedules a)
             = mset (scheduled u) + mset (added_schedules a)" by blast
  from t show "\<exists>t. transactions w = clear_cache t" by blast
  from t cache_clears_undostep_redo[OF s]
  show "cache_clears (transactions w) = Suc (cache_clears (transactions u))"
    by (simp add: clear_cache_def)
qed

theorem undo_redo_schedules_witness:
  "(case undo (edit (record new_undoer
        ((Action 1 ''Replace schedule'')\<lparr>added_schedules := [6], deleted_schedules := [5]\<rparr>))
        {} no_transactions [1, 6] blank) of
      Inl e \<Rightarrow> False
    | Inr v \<Rightarrow>
        scheduled v = [1, 5]
        \<and> mset (scheduled v) + mset [6] = mset [1, 6] + mset [5]
        \<and> cache_clears (transactions v) = Suc 0
        \<and> (case redo v of
              Inl e \<Rightarrow> False
            | Inr w \<Rightarrow>
                scheduled w = [1, 6]
                \<and> mset (scheduled w) + mset [5] = mset (scheduled v) + mset [6]
                \<and> cache_clears (transactions w) = Suc (Suc 0)))"
proof -
  let ?a = "(Action 1 ''Replace schedule'')\<lparr>added_schedules := [6], deleted_schedules := [5]\<rparr>
            :: nat action"
  let ?u = "edit (record new_undoer ?a) {} no_transactions [1, 6] blank"
  obtain v where v: "undo ?u = Inr v" and sv: "scheduled v = [1, 5]"
    and tv: "cache_clears (transactions ?u) = 0" and sched: "scheduled ?u = [1, 6]"
    by (simp add: evaluate)
  obtain w where w: "redo v = Inr w" and sw: "scheduled w = [1, 6]"
    using v by (auto simp: evaluate)
  from undo_redo_schedules[of ?u v w] v
  obtain a where a: "getitem (actions ?u) (index ?u) = Inr a"
    and m: "mset (scheduled v) + mset (added_schedules a)
             = mset (scheduled ?u) + mset (deleted_schedules a)"
    and c: "cache_clears (transactions v) = Suc (cache_clears (transactions ?u))"
    by blast
  from a have a': "added_schedules a = [6]" "deleted_schedules a = [5]"
    by (auto simp: evaluate)
  from undo_redo_schedules[of v v w] w
  obtain b where b: "getitem (actions v) (index v + 1) = Inr b"
    and m2: "mset (scheduled w) + mset (deleted_schedules b)
             = mset (scheduled v) + mset (added_schedules b)"
    and c2: "cache_clears (transactions w) = Suc (cache_clears (transactions v))"
    by blast
  from b v have b': "added_schedules b = [6]" "deleted_schedules b = [5]"
    by (auto simp: evaluate)
  from m c m2 c2 sv sw show ?thesis
    unfolding v sum.case w a' b' tv sched by simp
qed

section \<open>Undo, then redo\<close>









lemma set_without: "set (without xs gone) = set xs - set gone"
  by (auto simp: without_def)




section \<open>The history under a sequence of calls\<close>

lemma getitem_Inr:
  "getitem xs i = Inr a \<Longrightarrow> nat (position xs i) < length xs \<and> a = xs ! nat (position xs i)"
  by (auto simp: getitem_def Let_def split: if_splits)

lemma map_update_same: "f x = f (xs ! i) \<Longrightarrow> map f (xs[i := x]) = map f xs"
proof (cases "i < length xs")
  case True
  assume "f x = f (xs ! i)"
  with True have "f x = map f xs ! i" by simp
  then show ?thesis by (simp add: map_update)
next
  case False
  then have "length xs \<le> i" by arith
  then have "xs[i := x] = xs" by (rule list_update_beyond)
  then show ?thesis by simp
qed

lemma undo_history:
  assumes "undo u = Inr v"
  shows "map ident (actions v) = map ident (actions u)"
    and "map description (actions v) = map description (actions u)"
    and "length (actions v) = length (actions u)"
    and "index v = index u - 1" and "save_point v = save_point u" and "can_undo u"
proof -
  from assms obtain a st' accs txns h sched where
    c: "can_undo u" and g: "getitem (actions u) (index u) = Inr a"
    and v: "v = u\<lparr>actions := (actions u)[nat (position (actions u) (index u)) := a\<lparr>undostep := Some st'\<rparr>],
           accounts := accs, transactions := clear_cache txns, scheduled := sched,
           index := index u - 1, heap := h\<rparr>"
    unfolding undo_def
    by (auto simp: Let_def split: if_splits sum.splits option.splits prod.splits)
  from getitem_Inr[OF g] have a: "a = actions u ! nat (position (actions u) (index u))" by simp
  show "map ident (actions v) = map ident (actions u)"
    by (subst v) (simp add: map_update_same a)
  show "map description (actions v) = map description (actions u)"
    by (subst v) (simp add: map_update_same a)
  show "length (actions v) = length (actions u)" by (subst v) simp
  show "index v = index u - 1" by (subst v) simp
  show "save_point v = save_point u" by (subst v) simp
  show "can_undo u" by (rule c)
qed

lemma redo_history:
  assumes "redo u = Inr v"
  shows "map ident (actions v) = map ident (actions u)"
    and "map description (actions v) = map description (actions u)"
    and "length (actions v) = length (actions u)"
    and "index v = index u + 1" and "save_point v = save_point u" and "can_redo u"
proof -
  from assms obtain a st' accs txns h sched where
    c: "can_redo u" and g: "getitem (actions u) (index u + 1) = Inr a"
    and v: "v = u\<lparr>actions := (actions u)[nat (position (actions u) (index u + 1)) := a\<lparr>undostep := Some st'\<rparr>],
           accounts := accs, transactions := clear_cache txns, scheduled := sched,
           index := index u + 1, heap := h\<rparr>"
    unfolding redo_def
    by (auto simp: Let_def split: if_splits sum.splits option.splits prod.splits)
  from getitem_Inr[OF g] have a: "a = actions u ! nat (position (actions u) (index u + 1))" by simp
  show "map ident (actions v) = map ident (actions u)"
    by (subst v) (simp add: map_update_same a)
  show "map description (actions v) = map description (actions u)"
    by (subst v) (simp add: map_update_same a)
  show "length (actions v) = length (actions u)" by (subst v) simp
  show "index v = index u + 1" by (subst v) simp
  show "save_point v = save_point u" by (subst v) simp
  show "can_redo u" by (rule c)
qed

lemma edit_history:
  "actions (edit u accs txns sched h) = actions u"
  "index (edit u accs txns sched h) = index u"
  "save_point (edit u accs txns sched h) = save_point u"
  by (simp_all add: edit_def)

lemma record_history:
  "map ident (actions (record u a))
     = map ident (if index u < - 1 then slice_to (actions u) (index u + 1) else actions u) @ [ident a]"
  "index (record u a) = - 1" "save_point (record u a) = save_point u"
  by (simp_all add: record_def Let_def)

lemma set_slice_to: "set (slice_to xs k) \<subseteq> set xs"
  by (auto simp: slice_to_def dest: in_set_takeD)

lemma idents_record:
  "ident ` set (actions (record u a)) \<subseteq> insert (ident a) (ident ` set (actions u))"
  using set_slice_to[of "actions u" "index u + 1"] by (auto simp: record_def Let_def)

lemma step_history:
  assumes "step u x = Inr v"
  shows "ident ` set (actions v) \<subseteq> ident ` set (actions u) \<union> ident ` set (recorded [x])"
    and "save_point v = save_point u"
    and "index u \<le> - 1 \<Longrightarrow> index v \<le> - 1"
proof -
  show "ident ` set (actions v) \<subseteq> ident ` set (actions u) \<union> ident ` set (recorded [x])"
  proof (cases x)
    case (Record a)
    with assms idents_record[of u a] show ?thesis by auto
  next
    case Undo
    with assms have "map ident (actions v) = map ident (actions u)" by (simp add: undo_history)
    then have "set (map ident (actions v)) = set (map ident (actions u))" by simp
    then show ?thesis by auto
  next
    case Redo
    with assms have "map ident (actions v) = map ident (actions u)" by (simp add: redo_history)
    then have "set (map ident (actions v)) = set (map ident (actions u))" by simp
    then show ?thesis by auto
  next
    case (Edit accs txns sched h)
    with assms show ?thesis by (auto simp: edit_history)
  qed
  show "save_point v = save_point u"
    using assms by (cases x) (auto simp: undo_history redo_history edit_history record_history)
  show "index v \<le> - 1" if "index u \<le> - 1"
  proof (cases x)
    case (Record a)
    with assms show ?thesis by (auto simp: record_history)
  next
    case Undo
    with assms that show ?thesis by (simp add: undo_history)
  next
    case Redo
    with assms have "index v = index u + 1" "can_redo u" by (simp_all add: redo_history)
    then show ?thesis by (simp add: can_redo_def)
  next
    case (Edit accs txns sched h)
    with assms that show ?thesis by (auto simp: edit_history)
  qed
qed

lemma recorded_Cons: "set (recorded (x # xs)) = set (recorded [x]) \<union> set (recorded xs)"
  by (cases x) simp_all

lemma run_history:
  assumes "run u ops = Inr w"
  shows "ident ` set (actions w) \<subseteq> ident ` set (actions u) \<union> ident ` set (recorded ops)"
    and "save_point w = save_point u"
    and "index u \<le> - 1 \<Longrightarrow> index w \<le> - 1"
  using assms
proof (induction ops arbitrary: u)
  case Nil
  { case 1 then show ?case by simp }
  { case 2 then show ?case by simp }
  { case 3 then show ?case by simp }
next
  case (Cons x xs)
  { case 1
    then obtain v where s: "step u x = Inr v" and r: "run v xs = Inr w"
      by (auto split: sum.splits)
    from Cons.IH(1)[OF r] step_history(1)[OF s] show ?case
      unfolding recorded_Cons[of x xs] by blast }
  { case 2
    then obtain v where s: "step u x = Inr v" and r: "run v xs = Inr w"
      by (auto split: sum.splits)
    from Cons.IH(2)[OF r] step_history(2)[OF s] show ?case by simp }
  { case 3
    then obtain v where s: "step u x = Inr v" and r: "run v xs = Inr w"
      by (auto split: sum.splits)
    from Cons.IH(3)[OF _ r] step_history(3)[OF s] 3 show ?case by simp }
qed

section \<open>The save point and the cleared history\<close>

lemma modified_stale:
  assumes "index w \<le> - 1" "save_point w = Some s" "s \<notin> ident ` set (actions w)"
  shows "modified w = Inr True"
proof (cases "can_undo w")
  case True
  with assms(1) have r: "0 \<le> int (length (actions w)) + index w"
    "int (length (actions w)) + index w < int (length (actions w))" "index w < 0"
    by (simp_all add: can_undo_def)
  then have n: "nat (int (length (actions w)) + index w) < length (actions w)" by linarith
  have "getitem (actions w) (index w)
      = Inr (actions w ! nat (int (length (actions w)) + index w))"
    using r by (simp add: getitem_def position_def)
  moreover have "ident (actions w ! nat (int (length (actions w)) + index w)) \<noteq> s"
    using assms(3) nth_mem[OF n] by blast
  ultimately show ?thesis using True assms(2) by (auto simp: modified_def)
next
  case False
  with assms(2) show ?thesis by (simp add: modified_def)
qed

lemma clear_fields:
  "actions (clear u) = []" "save_point (clear u) = save_point u" "index (clear u) = index u"
  "accounts (clear u) = accounts u" "transactions (clear u) = transactions u"
  "scheduled (clear u) = scheduled u" "heap (clear u) = heap u"
  by (simp_all add: clear_def)

text \<open>
  Claim C9, amended. \<^verbatim>\<open>clear()\<close> empties the history and leaves every other field as
  it is, the save point among them. So when \<^verbatim>\<open>set_save_point()\<close> was called with a
  history that was not empty (in a state \<open>u0\<close> whose cursor is at most \<open>-1\<close>, as in
  every state the class reaches), and after any calls \<open>ops1\<close> of record, undo and redo
  \<^verbatim>\<open>clear()\<close> is called, then \<open>modified\<close> is true, and it is true after every
  further sequence \<open>ops2\<close> of record, undo and redo in which no \<^verbatim>\<open>record\<close> is given
  the action object of the save point.
\<close>

theorem clear_keeps_save_point:
  "actions (clear u) = [] \<and> save_point (clear u) = save_point u \<and> index (clear u) = index u
   \<and> accounts (clear u) = accounts u \<and> transactions (clear u) = transactions u
   \<and> scheduled (clear u) = scheduled u \<and> heap (clear u) = heap u
   \<and> (actions u0 \<noteq> [] \<and> index u0 \<le> - 1 \<and> run (set_save_point u0) ops1 = Inr u
        \<and> (\<forall>c \<in> set (recorded ops2). ident c \<noteq> ident (last (actions u0)))
        \<and> run (clear u) ops2 = Inr w
      \<longrightarrow> modified (clear u) = Inr True \<and> modified w = Inr True)"
proof -
  have "modified (clear u) = Inr True \<and> modified w = Inr True"
    if h: "actions u0 \<noteq> []" "index u0 \<le> - 1" "run (set_save_point u0) ops1 = Inr u"
      "\<forall>c \<in> set (recorded ops2). ident c \<noteq> ident (last (actions u0))"
      "run (clear u) ops2 = Inr w"
  proof -
    define s where "s = ident (last (actions u0))"
    have sp0: "save_point (set_save_point u0) = Some s" "index (set_save_point u0) \<le> - 1"
      using h(1,2) by (simp_all add: set_save_point_def s_def)
    from run_history(2,3)[OF h(3)] sp0 have u: "save_point u = Some s" "index u \<le> - 1"
      by simp_all
    then have c: "save_point (clear u) = Some s" "index (clear u) \<le> - 1"
      "s \<notin> ident ` set (actions (clear u))"
      by (simp_all add: clear_fields)
    from run_history[OF h(5)] c h(4)
    have w: "save_point w = Some s" "index w \<le> - 1" "s \<notin> ident ` set (actions w)"
      by (auto simp: clear_fields s_def)
    from modified_stale[OF c(2,1,3)] modified_stale[OF w(2,1,3)] show ?thesis by simp
  qed
  then show ?thesis by (simp add: clear_fields)
qed

theorem clear_keeps_save_point_witness:
  "actions (record new_undoer (Action 1 ''Add account'')) \<noteq> []
   \<and> index (record new_undoer (Action 1 ''Add account'')) \<le> - 1
   \<and> ident (Action 2 ''Add transaction'' :: nat action)
       \<noteq> ident (last (actions (record new_undoer (Action 1 ''Add account''))))
   \<and> (case run (set_save_point (record new_undoer (Action 1 ''Add account''))) [Undo] of
        Inl e \<Rightarrow> False
      | Inr u \<Rightarrow>
          save_point (clear u) = Some 1 \<and> actions (clear u) = []
          \<and> modified (clear u) = Inr True
          \<and> (case run (clear u) [Record (Action 2 ''Add transaction''), Undo, Redo] of
                Inl e \<Rightarrow> False
              | Inr w \<Rightarrow> modified w = Inr True))"
proof -
  let ?u0 = "record new_undoer (Action 1 ''Add account'')"
  let ?ops = "[Record (Action 2 ''Add transaction'' :: nat action), Undo, Redo]"
  have h1: "actions ?u0 \<noteq> []" and h2: "index ?u0 \<le> - 1"
    and h3: "ident (Action 2 ''Add transaction'' :: nat action) \<noteq> ident (last (actions ?u0))"
    by (simp_all add: evaluate)
  from h3 have h4: "\<forall>c \<in> set (recorded ?ops). ident c \<noteq> ident (last (actions ?u0))"
    by simp
  obtain u where u: "run (set_save_point ?u0) [Undo] = Inr u" and sp: "save_point u = Some 1"
    by (simp add: evaluate)
  obtain w where w: "run (clear u) ?ops = Inr w"
    using u by (auto simp: evaluate)
  from clear_keeps_save_point[of u ?u0 "[Undo]" ?ops w] h1 h2 h4 u w
  have "actions (clear u) = []" "save_point (clear u) = save_point u"
    "modified (clear u) = Inr True" "modified w = Inr True"
    by blast+
  with h1 h2 h3 sp show ?thesis unfolding u w sum.case by simp
qed

text \<open>
  Claim C9 as it is written fails when the action of the save point is recorded again.
  Record an action, call \<^verbatim>\<open>set_save_point()\<close> and \<^verbatim>\<open>clear()\<close>: \<open>modified\<close> is
  true. Record the same action object once more: it is at the cursor and \<open>modified\<close> is
  false.
\<close>

theorem save_point_action_recorded_again:
  "modified (clear (set_save_point (record new_undoer (Action 1 ''Add account'')))) = Inr True
   \<and> modified (record (clear (set_save_point (record new_undoer (Action 1 ''Add account''))))
         (Action 1 ''Add account'')) = Inr False"
  by (simp add: evaluate)






section \<open>The cursor and the cleared history\<close>

text \<open>
  Claim C10. \<^verbatim>\<open>clear()\<close> leaves the cursor where it is. In every state in which an
  action has been undone and not redone (the cursor is below \<open>-1\<close>), after
  \<^verbatim>\<open>clear()\<close> the history is empty, \<^verbatim>\<open>can_redo()\<close> is true, \<^verbatim>\<open>can_undo()\<close>
  is false, and \<^verbatim>\<open>redo()\<close> passes its assertion and raises \<^verbatim>\<open>IndexError\<close> when
  it reads the action after the cursor.
\<close>

theorem clear_keeps_cursor:
  assumes "index u < - 1"
  shows "index (clear u) = index u \<and> actions (clear u) = []
       \<and> can_redo (clear u) \<and> \<not> can_undo (clear u)
       \<and> redo (clear u) = Inl IndexError"
  using assms by (simp add: clear_def can_redo_def can_undo_def redo_def getitem_def position_def)

theorem clear_keeps_cursor_witness:
  "(case undo (record new_undoer (Action 1 ''Add account'')) of
      Inl e \<Rightarrow> False
    | Inr u \<Rightarrow> index u < - 1 \<and> index (clear u) = index u \<and> actions (clear u) = []
        \<and> can_redo (clear u) \<and> \<not> can_undo (clear u) \<and> redo (clear u) = Inl IndexError)"
proof -
  obtain u where u: "undo (record new_undoer (Action 1 ''Add account'')) = Inr u"
    and i: "index u < - 1"
    by (simp add: evaluate)
  from clear_keeps_cursor[OF i] i show ?thesis unfolding u by simp
qed

text \<open>
  Claim C8 on the code. On a new Undoer \<^verbatim>\<open>can_undo()\<close> and \<^verbatim>\<open>can_redo()\<close> are
  false and \<^verbatim>\<open>undo()\<close> and \<^verbatim>\<open>redo()\<close> fail their assertion, as the claim says.
  But record one action, undo it, and call \<^verbatim>\<open>clear()\<close>: \<^verbatim>\<open>can_redo()\<close> is true and
  \<^verbatim>\<open>redo()\<close> does not complete, it raises \<^verbatim>\<open>IndexError\<close>.
\<close>

theorem redo_after_clear:
  "\<not> can_undo new_undoer \<and> undo new_undoer = Inl AssertionError
   \<and> \<not> can_redo new_undoer \<and> redo new_undoer = Inl AssertionError
   \<and> (case undo (record new_undoer (Action 1 ''Add account'')) of
        Inl e \<Rightarrow> False
      | Inr u \<Rightarrow> can_redo (clear u) \<and> redo (clear u) = Inl IndexError)"
  by (simp add: evaluate)

text \<open>
  Claim C3 on the code. Record two actions and undo the second one: the cursor is on the
  first action. \<^verbatim>\<open>set_save_point()\<close> remembers the last action of the list, not the
  one at the cursor, so right after the call \<open>modified\<close> is true.
\<close>

theorem save_point_after_undo:
  "(case undo (record (record new_undoer (Action 1 ''Add account''))
                 (Action 2 ''Add transaction'')) of
      Inl e \<Rightarrow> False
    | Inr u \<Rightarrow> can_undo u \<and> undo_description u = Inr (Some ''Add account'')
        \<and> modified (set_save_point u) = Inr True)"
  by (simp add: evaluate)

section \<open>The assertions and the save point where nothing is undone\<close>

lemma do_deletes_error: "do_deletes sched ss = Inl e \<Longrightarrow> e = ValueError"
  by (induction ss arbitrary: sched) (auto split: if_splits)

lemma getitem_error: "getitem xs i = Inl e \<Longrightarrow> e = IndexError"
  by (auto simp: getitem_def Let_def split: if_splits)

text \<open>
  X1, the part of claim C8 that holds in every state. \<^verbatim>\<open>undo()\<close> fails its assertion
  exactly when \<^verbatim>\<open>can_undo()\<close> is false, and \<^verbatim>\<open>redo()\<close> exactly when
  \<^verbatim>\<open>can_redo()\<close> is false: under the precondition the assertion does not fire, whatever
  else the call then does.
\<close>

theorem undo_redo_assertions:
  "(\<not> can_undo u \<longrightarrow> undo u = Inl AssertionError)
   \<and> (\<not> can_redo u \<longrightarrow> redo u = Inl AssertionError)
   \<and> (can_undo u \<longrightarrow> undo u \<noteq> Inl AssertionError)
   \<and> (can_redo u \<longrightarrow> redo u \<noteq> Inl AssertionError)"
proof -
  have a: "undo u \<noteq> Inl AssertionError" if "can_undo u"
    using that
    by (auto simp: undo_def Let_def split: sum.splits option.splits prod.splits
        dest: do_deletes_error getitem_error)
  have b: "redo u \<noteq> Inl AssertionError" if "can_redo u"
    using that
    by (auto simp: redo_def Let_def split: sum.splits option.splits prod.splits
        dest: do_deletes_error getitem_error)
  from a b show ?thesis by (simp add: undo_def redo_def)
qed

theorem undo_redo_assertions_witness:
  "\<not> can_undo new_undoer \<and> undo new_undoer = Inl AssertionError
   \<and> \<not> can_redo new_undoer \<and> redo new_undoer = Inl AssertionError
   \<and> can_undo (record new_undoer (Action 1 ''Add account''))
   \<and> undo (record new_undoer (Action 1 ''Add account'')) \<noteq> Inl AssertionError
   \<and> (case undo (record new_undoer (Action 1 ''Add account'')) of
        Inl e \<Rightarrow> False
      | Inr u \<Rightarrow> can_redo u \<and> redo u \<noteq> Inl AssertionError)"
proof -
  let ?u = "record new_undoer (Action 1 ''Add account'')"
  have h: "\<not> can_undo new_undoer" "\<not> can_redo new_undoer" "can_undo ?u"
    by (simp_all add: evaluate)
  obtain v where v: "undo ?u = Inr v" and c: "can_redo v" by (simp add: evaluate)
  from undo_redo_assertions[of new_undoer] undo_redo_assertions[of ?u]
    undo_redo_assertions[of v] h c
  show ?thesis unfolding v sum.case by blast
qed

lemma modified_record: "modified (record v b) = Inr (save_point v \<noteq> Some (ident b))"
  by (simp add: modified_def can_undo_record index_record getitem_last
      actions_record_nonempty last_actions_record record_history)

text \<open>
  X2, the part of claim C3 that holds. \<open>modified\<close> is false on a new Undoer. When nothing
  is undone (the cursor is at \<open>-1\<close>), \<open>modified\<close> is false right after
  \<^verbatim>\<open>set_save_point()\<close>; it is true after the record of an action that is not the one
  of the save point; and it is false again after the undo of that record.
\<close>

theorem modified_around_save_point:
  "modified (Undoer accs txns sched h :: 'v undoer) = Inr False
   \<and> (index u = - 1 \<longrightarrow>
        modified (set_save_point u) = Inr False
        \<and> (save_point (set_save_point u) \<noteq> Some (ident b) \<longrightarrow>
             modified (record (set_save_point u) b) = Inr True
             \<and> (undo (record (set_save_point u) b) = Inr w \<longrightarrow> modified w = Inr False)))"
proof -
  have a: "modified (Undoer accs txns sched h :: 'v undoer) = Inr False"
    by (simp add: modified_def Undoer_def can_undo_def)
  have b: "modified (set_save_point u) = Inr False" if "index u = - 1"
  proof (cases "actions u = []")
    case True
    with that show ?thesis by (simp add: modified_def set_save_point_def can_undo_def)
  next
    case False
    then have "Suc 0 \<le> length (actions u)" by (cases "actions u") simp_all
    with that False show ?thesis
      by (simp add: modified_def set_save_point_def can_undo_def getitem_last)
  qed
  have c: "modified w = Inr False"
    if i: "index u = - 1" and u: "undo (record (set_save_point u) b) = Inr w"
  proof -
    let ?v = "set_save_point u"
    have iw: "index w = - 2" and sw: "save_point w = save_point ?v"
      and mw: "map ident (actions w) = map ident (actions u) @ [ident b]"
      using undo_history[OF u] i
      by (simp_all add: record_history set_save_point_def)
    from mw have lw: "length (actions w) = length (actions u) + 1"
      using length_map[of ident "actions w"] by simp
    show ?thesis
    proof (cases "actions u = []")
      case True
      with lw iw sw show ?thesis by (simp add: modified_def can_undo_def set_save_point_def)
    next
      case False
      then have n: "length (actions u) - 1 < length (actions u)" by simp
      from False have l1: "Suc 0 \<le> length (actions u)" by (cases "actions u") simp_all
      have g: "getitem (actions w) (index w) = Inr (actions w ! (length (actions u) - 1))"
        using False lw iw
        by (auto simp: getitem_def position_def Let_def nat_diff_distrib'
            intro!: arg_cong[where f="nth (actions w)"])
      have "ident (actions w ! (length (actions u) - 1))
          = map ident (actions w) ! (length (actions u) - 1)"
        using lw n by simp
      also have "\<dots> = ident (last (actions u))"
        unfolding mw using False n by (simp add: nth_append last_conv_nth)
      finally have "ident (actions w ! (length (actions u) - 1)) = ident (last (actions u))" .
      with g False lw iw sw l1 show ?thesis
        by (simp add: modified_def can_undo_def set_save_point_def)
    qed
  qed
  from a b c show ?thesis by (simp add: modified_record)
qed

theorem modified_around_save_point_witness:
  "index (record new_undoer (Action 1 ''Add account'')) = - 1
   \<and> modified (set_save_point (record new_undoer (Action 1 ''Add account''))) = Inr False
   \<and> save_point (set_save_point (record new_undoer (Action 1 ''Add account'')))
       \<noteq> Some (ident (Action 2 ''Add transaction'' :: nat action))
   \<and> modified (record (set_save_point (record new_undoer (Action 1 ''Add account'')))
         (Action 2 ''Add transaction'')) = Inr True
   \<and> (case undo (record (set_save_point (record new_undoer (Action 1 ''Add account'')))
         (Action 2 ''Add transaction'')) of
        Inl e \<Rightarrow> False
      | Inr w \<Rightarrow> modified w = Inr False)"
proof -
  let ?u = "record new_undoer (Action 1 ''Add account'')"
  let ?b = "Action 2 ''Add transaction'' :: nat action"
  have i: "index ?u = - 1" and s: "save_point (set_save_point ?u) \<noteq> Some (ident ?b)"
    by (simp_all add: evaluate)
  obtain w where w: "undo (record (set_save_point ?u) ?b) = Inr w"
    by (simp add: evaluate)
  from modified_around_save_point[of "{}" no_transactions "[]" blank ?u ?b w] i s w
  show ?thesis unfolding w sum.case by blast
qed

end
